theory Spec2Isabelle
  imports Main
begin

section \<open>The Ruby to C Sharp transpiler of \<^verbatim>\<open>convert_ruby.py\<close>\<close>

text \<open>
  The pipeline of the script is \<^verbatim>\<open>tokenize_ruby_code\<close>, then \<^verbatim>\<open>parse_tokens\<close>, then
  \<^verbatim>\<open>transpile_to_csharp\<close>. Each stage is embedded as a HOL function of the same name.
  Python exceptions are values of the type \<open>error\<close>; a stage that can raise returns
  \<open>error + 'a\<close> with \<open>Inl\<close> for the exception.
\<close>

subsection \<open>Characters and the lexer\<close>

text \<open>
  A Python string is a sequence of code points. The model uses \<^typ>\<open>char\<close>, read as the
  code points 0 to 255. The lexer is the regular expression
  \<^verbatim>\<open>[A-Za-z_][A-Za-z0-9_]*|\S\<close> handed to \<^verbatim>\<open>re.findall\<close>. The three character
  classes it mentions are the three predicates below; \<open>is_space\<close> lists the code points
  below 256 that \<^verbatim>\<open>\s\<close> matches in a \<^verbatim>\<open>str\<close> pattern (those with
  \<^verbatim>\<open>str.isspace()\<close> true).
\<close>

definition is_ident_start :: "char \<Rightarrow> bool" where
  "is_ident_start c = (let n = (of_char c :: nat) in
     (65 \<le> n \<and> n \<le> 90) \<or> (97 \<le> n \<and> n \<le> 122) \<or> n = 95)"

definition is_ident_char :: "char \<Rightarrow> bool" where
  "is_ident_char c = (let n = (of_char c :: nat) in
     (65 \<le> n \<and> n \<le> 90) \<or> (97 \<le> n \<and> n \<le> 122) \<or> (48 \<le> n \<and> n \<le> 57) \<or> n = 95)"

definition is_space :: "char \<Rightarrow> bool" where
  "is_space c = (let n = (of_char c :: nat) in
     (9 \<le> n \<and> n \<le> 13) \<or> (28 \<le> n \<and> n \<le> 32) \<or> n = 133 \<or> n = 160)"

text \<open>
  \<^verbatim>\<open>re.findall\<close> scans from the left. At each position it tries the first alternative
  (one identifier-start character, then greedily every identifier character that
  follows), then the second (one non-whitespace character); when neither matches, the
  character is whitespace and the scan moves one position on. No match is empty, so the
  next scan starts right after the match.
\<close>

function tokenize_ruby_code :: "string \<Rightarrow> string list" where
  "tokenize_ruby_code [] = []"
| "tokenize_ruby_code (c # cs) =
     (if is_ident_start c
      then (c # takeWhile is_ident_char cs) # tokenize_ruby_code (dropWhile is_ident_char cs)
      else if \<not> is_space c then [c] # tokenize_ruby_code cs
      else tokenize_ruby_code cs)"
  by pat_completeness auto
termination
  by (relation "measure length") (auto simp: length_dropWhile_le less_Suc_eq_le)

subsection \<open>Nodes and the parser\<close>

text \<open>
  A node is a Python dictionary: \<^verbatim>\<open>{"type": token, "body": [...]}\<close> for a block and
  \<^verbatim>\<open>{"type": "code", "value": token}\<close> for a fragment.
\<close>

datatype node = Block string "node list" | Code string

datatype error = IndexError | KeyError

definition block_keywords :: "string list" where
  "block_keywords = [''class'', ''def'', ''if'', ''while'', ''else'', ''elsif'', ''do'']"

text \<open>
  The parser's two local lists. An entry of \<open>stack\<close> is a block that is still open: its
  \<^verbatim>\<open>"type"\<close> and the \<^verbatim>\<open>"body"\<close> collected so far. The head of the HOL list is the top
  of the stack (\<^verbatim>\<open>stack[-1]\<close>). An open block is referenced from the stack only, so
  the in-place \<^verbatim>\<open>append\<close> to its body is an update of that entry.
\<close>

record parser_state =
  ast :: "node list"
  stack :: "(string \<times> node list) list"

text \<open>The body of the \<^verbatim>\<open>for token in tokens\<close> loop. \<^verbatim>\<open>stack.pop()\<close> raises
  \<^verbatim>\<open>IndexError\<close> on an empty list.\<close>

definition parse_step :: "parser_state \<Rightarrow> string \<Rightarrow> error + parser_state" where
  "parse_step st token =
     (if token \<in> set block_keywords then
        Inr (st\<lparr>stack := (token, []) # stack st\<rparr>)
      else if token = ''end'' then
        (case stack st of
           [] \<Rightarrow> Inl IndexError
         | (k, body) # rest \<Rightarrow>
             (case rest of
                (pk, pbody) # rest' \<Rightarrow>
                  Inr (st\<lparr>stack := (pk, pbody @ [Block k body]) # rest'\<rparr>)
              | [] \<Rightarrow> Inr (st\<lparr>ast := ast st @ [Block k body], stack := []\<rparr>)))
      else
        (case stack st of
           (k, body) # rest \<Rightarrow> Inr (st\<lparr>stack := (k, body @ [Code token]) # rest\<rparr>)
         | [] \<Rightarrow> Inr (st\<lparr>ast := ast st @ [Code token]\<rparr>)))"

fun parse_loop :: "parser_state \<Rightarrow> string list \<Rightarrow> error + parser_state" where
  "parse_loop st [] = Inr st"
| "parse_loop st (token # tokens) =
     (case parse_step st token of Inl e \<Rightarrow> Inl e | Inr st' \<Rightarrow> parse_loop st' tokens)"

definition parse_tokens :: "string list \<Rightarrow> error + node list" where
  "parse_tokens tokens =
     (case parse_loop \<lparr>ast = [], stack = []\<rparr> tokens of
        Inl e \<Rightarrow> Inl e
      | Inr st \<Rightarrow> Inr (ast st))"

subsection \<open>The renderer\<close>

definition RUBY_TO_CSHARP_KEYWORDS :: "(string \<times> string) list" where
  "RUBY_TO_CSHARP_KEYWORDS =
     [(''def'', ''public void''), (''class'', ''public class''), (''end'', ''}''),
      (''if'', ''if''), (''elsif'', ''else if''), (''else'', ''else''),
      (''while'', ''while''), (''do'', ''{''), (''true'', ''true''),
      (''false'', ''false''), (''nil'', ''null'')]"

text \<open>\<^verbatim>\<open>RUBY_TO_CSHARP_KEYWORDS[k]\<close>: a missing key raises \<^verbatim>\<open>KeyError\<close>.\<close>

definition keyword :: "string \<Rightarrow> error + string" where
  "keyword k = (case map_of RUBY_TO_CSHARP_KEYWORDS k of
                  None \<Rightarrow> Inl KeyError | Some v \<Rightarrow> Inr v)"

text \<open>\<^verbatim>\<open>node["body"][0]["value"]\<close>: an empty body raises \<^verbatim>\<open>IndexError\<close>, a first
  element that is a block has no \<^verbatim>\<open>"value"\<close> and raises \<^verbatim>\<open>KeyError\<close>.\<close>

definition first_value :: "node list \<Rightarrow> error + string" where
  "first_value body =
     (case body of
        [] \<Rightarrow> Inl IndexError
      | Block k b # rest \<Rightarrow> Inl KeyError
      | Code v # rest \<Rightarrow> Inr v)"

text \<open>
  \<^verbatim>\<open>transpile_node\<close> appends to the enclosing \<^verbatim>\<open>csharp_code\<close>; the model passes the
  string in and returns it extended. \<open>transpile_body\<close> is the loop
  \<^verbatim>\<open>for child in ...: transpile_node(child)\<close>, and \<^verbatim>\<open>node["body"][1:]\<close> is \<open>tl body\<close>
  (the slice of an empty list is empty). A dictionary whose \<^verbatim>\<open>"type"\<close> is
  \<^verbatim>\<open>"code"\<close> but which has no \<^verbatim>\<open>"value"\<close> raises \<^verbatim>\<open>KeyError\<close> in the last branch;
  every other type falls through the \<^verbatim>\<open>if\<close>/\<^verbatim>\<open>elif\<close> chain and appends nothing.
\<close>

function transpile_node :: "node \<Rightarrow> string \<Rightarrow> error + string"
  and transpile_body :: "node list \<Rightarrow> string \<Rightarrow> error + string" where
  "transpile_node (Code v) out = Inr (out @ ''    '' @ v @ ''\<newline>'')"
| "transpile_node (Block k body) out =
     (if k = ''class'' then
        (case keyword ''class'' of Inl e \<Rightarrow> Inl e | Inr kw \<Rightarrow>
        (case first_value body of Inl e \<Rightarrow> Inl e | Inr name \<Rightarrow>
        (case transpile_body (tl body) (out @ kw @ '' '' @ name @ '' {\<newline>'') of
           Inl e \<Rightarrow> Inl e
         | Inr out' \<Rightarrow> Inr (out' @ ''}\<newline>''))))
      else if k = ''def'' then
        (case first_value body of Inl e \<Rightarrow> Inl e | Inr method_name \<Rightarrow>
        (case keyword ''def'' of Inl e \<Rightarrow> Inl e | Inr kw \<Rightarrow>
        (case transpile_body (tl body)
                (out @ ''    '' @ kw @ '' '' @ method_name @ ''() {\<newline>'') of
           Inl e \<Rightarrow> Inl e
         | Inr out' \<Rightarrow> Inr (out' @ ''    }\<newline>''))))
      else if k = ''if'' then
        (case keyword ''if'' of Inl e \<Rightarrow> Inl e | Inr kw \<Rightarrow>
        (case first_value body of Inl e \<Rightarrow> Inl e | Inr condition \<Rightarrow>
        (case transpile_body (tl body)
                ((out @ ''    '' @ kw @ '' ('') @ condition @ '') {\<newline>'') of
           Inl e \<Rightarrow> Inl e
         | Inr out' \<Rightarrow> Inr (out' @ ''    }\<newline>''))))
      else if k = ''while'' then
        (case keyword ''while'' of Inl e \<Rightarrow> Inl e | Inr kw \<Rightarrow>
        (case first_value body of Inl e \<Rightarrow> Inl e | Inr condition \<Rightarrow>
        (case transpile_body (tl body)
                ((out @ ''    '' @ kw @ '' ('') @ condition @ '') {\<newline>'') of
           Inl e \<Rightarrow> Inl e
         | Inr out' \<Rightarrow> Inr (out' @ ''    }\<newline>''))))
      else if k = ''code'' then Inl KeyError
      else Inr out)"
| "transpile_body [] out = Inr out"
| "transpile_body (child # children) out =
     (case transpile_node child out of
        Inl e \<Rightarrow> Inl e
      | Inr out' \<Rightarrow> transpile_body children out')"
  by pat_completeness auto

termination
proof -
  have tl_le: "size_list f (tl xs) \<le> size_list f xs" for f :: "node \<Rightarrow> nat" and xs
    by (cases xs) simp_all
  show ?thesis
    by (relation "measure (\<lambda>x. case x of Inl (n, out) \<Rightarrow> size n
                                       | Inr (ns, out) \<Rightarrow> size_list size ns)")
       (simp_all add: less_Suc_eq_le tl_le)
qed

definition transpile_to_csharp :: "node list \<Rightarrow> error + string" where
  "transpile_to_csharp forest = transpile_body forest ''''"

text \<open>The three stages of \<^verbatim>\<open>transpile_ruby_to_csharp\<close> between reading and writing
  the files.\<close>

definition transpile_ruby :: "string \<Rightarrow> error + string" where
  "transpile_ruby ruby_code =
     (case parse_tokens (tokenize_ruby_code ruby_code) of
        Inl e \<Rightarrow> Inl e
      | Inr forest \<Rightarrow> transpile_to_csharp forest)"

subsection \<open>Notions used to state the properties\<close>

text \<open>
  The lexer as the specification words it, for comparison with \<open>tokenize_ruby_code\<close>:
  a token is a maximal run of characters of the alphabet of letters, digits and
  underscore, or one character that is neither whitespace nor in that alphabet.
\<close>

function spec_tokenize :: "string \<Rightarrow> string list" where
  "spec_tokenize [] = []"
| "spec_tokenize (c # cs) =
     (if is_ident_char c
      then (c # takeWhile is_ident_char cs) # spec_tokenize (dropWhile is_ident_char cs)
      else if \<not> is_space c then [c] # spec_tokenize cs
      else spec_tokenize cs)"
  by pat_completeness auto
termination
  by (relation "measure length") (auto simp: length_dropWhile_le less_Suc_eq_le)

text \<open>
  The two shapes of a token of the source's regular expression: a match of
  \<^verbatim>\<open>[A-Za-z_][A-Za-z0-9_]*\<close>, and a single non-whitespace character that cannot start
  such a match. \<open>ident_at pre t post\<close> says that the identifier \<open>t\<close>, standing between
  \<open>pre\<close> and \<open>post\<close>, cannot be extended on either side.
\<close>

definition ident_token :: "string \<Rightarrow> bool" where
  "ident_token t = (t \<noteq> [] \<and> is_ident_start (hd t) \<and> (\<forall>c \<in> set t. is_ident_char c))"

definition punct_token :: "string \<Rightarrow> bool" where
  "punct_token t = (length t = 1 \<and> \<not> is_space (hd t) \<and> \<not> is_ident_start (hd t))"

definition ident_at :: "string \<Rightarrow> string \<Rightarrow> string \<Rightarrow> bool" where
  "ident_at pre t post =
     (ident_token t \<and> (post = [] \<or> \<not> is_ident_char (hd post))
      \<and> (pre = [] \<or> \<not> is_ident_start (last pre)))"

text \<open>
  The lines of a text: the pieces that the newline characters terminate (a last piece
  without a newline counts as a line). The indentation of a line is the number of blanks
  it starts with.
\<close>

fun split_lines :: "string \<Rightarrow> string list" where
  "split_lines [] = []"
| "split_lines (c # cs) =
     (if c = CHR ''\<newline>'' then [] # split_lines cs
      else (case split_lines cs of [] \<Rightarrow> [[c]] | l # ls \<Rightarrow> (c # l) # ls))"

definition indent_of :: "string \<Rightarrow> nat" where
  "indent_of l = length (takeWhile (\<lambda>c. c = CHR '' '') l)"

definition indented_by :: "nat \<Rightarrow> string \<Rightarrow> bool" where
  "indented_by n l = (indent_of l = n)"

text \<open>The two lines a class node is rendered with: the header and the closing
  brace.\<close>

definition class_line :: "string \<Rightarrow> bool" where
  "class_line l = (l = ''}'' \<or> take 13 l = ''public class '')"

text \<open>
  A Forest built by the parser holds lexer tokens in its fragments, which contain no
  whitespace. \<open>no_class\<close> holds for a node without a class block inside.
\<close>

fun token_fragments :: "node \<Rightarrow> bool" where
  "token_fragments (Code v) = (\<forall>c \<in> set v. \<not> is_space c)"
| "token_fragments (Block k body) = (\<forall>n \<in> set body. token_fragments n)"

fun no_class :: "node \<Rightarrow> bool" where
  "no_class (Code v) = True"
| "no_class (Block k body) = (k \<noteq> ''class'' \<and> (\<forall>n \<in> set body. no_class n))"

text \<open>
  The four block kinds with a branch in \<^verbatim>\<open>transpile_node\<close>, and the text of the first
  and last line each of them is rendered with.
\<close>

definition render_kinds :: "string list" where
  "render_kinds = [''class'', ''def'', ''if'', ''while'']"

definition open_line :: "string \<Rightarrow> string \<Rightarrow> string" where
  "open_line k v =
     (if k = ''class'' then ''public class '' @ v @ '' {''
      else if k = ''def'' then ''    public void '' @ v @ ''() {''
      else ''    '' @ k @ '' ('' @ v @ '') {'')"

definition close_line :: "string \<Rightarrow> string" where
  "close_line k = (if k = ''class'' then ''}'' else ''    }'')"

text \<open>
  A rendered chunk is well-formed when it is empty or ends with a newline and each of its
  lines is indented by four blanks or, where class lines are allowed, is a class line.
\<close>

definition line_ok :: "bool \<Rightarrow> string \<Rightarrow> bool" where
  "line_ok allow l = (indented_by 4 l \<or> (allow \<and> class_line l))"

definition chunk_ok :: "bool \<Rightarrow> string \<Rightarrow> bool" where
  "chunk_ok allow r =
     ((r = [] \<or> last r = CHR ''\<newline>'') \<and> (\<forall>l \<in> set (split_lines r). line_ok allow l))"

text \<open>
  \<open>all_bodies_nonempty\<close>: every class, def, if and while node inside the node has a
  non-empty body. \<open>visited_bodies_nonempty\<close>: the same for the nodes that
  \<^verbatim>\<open>transpile_node\<close> visits, which are the node itself and, for the four rendered kinds,
  the elements of \<^verbatim>\<open>body[1:]\<close>.
\<close>

fun all_bodies_nonempty :: "node \<Rightarrow> bool" where
  "all_bodies_nonempty (Code v) = True"
| "all_bodies_nonempty (Block k body) =
     ((k \<in> set render_kinds \<longrightarrow> body \<noteq> []) \<and> (\<forall>n \<in> set body. all_bodies_nonempty n))"

fun visited_bodies_nonempty :: "node \<Rightarrow> bool" where
  "visited_bodies_nonempty (Code v) = True"
| "visited_bodies_nonempty (Block k []) = (k \<notin> set render_kinds)"
| "visited_bodies_nonempty (Block k (first # rest)) =
     (k \<in> set render_kinds \<longrightarrow> (\<forall>n \<in> set rest. visited_bodies_nonempty n))"

section \<open>The lexer\<close>

lemma ident_char_not_space: "is_ident_char c \<Longrightarrow> \<not> is_space c"
  by (auto simp: is_ident_char_def is_space_def Let_def)

lemma ident_start_ident_char: "is_ident_start c \<Longrightarrow> is_ident_char c"
  by (auto simp: is_ident_char_def is_ident_start_def Let_def)

lemma filter_takeWhile_dropWhile:
  "(\<And>x. P x \<Longrightarrow> Q x) \<Longrightarrow> takeWhile P xs @ filter Q (dropWhile P xs) = filter Q xs"
  by (induction xs) auto

text \<open>
  C9. Concatenating the tokens of any input, in order, gives the input with its whitespace
  characters removed, and no token is the empty string.
\<close>

theorem tokens_reconstruct_input:
  "concat (tokenize_ruby_code code) = filter (\<lambda>c. \<not> is_space c) code
   \<and> [] \<notin> set (tokenize_ruby_code code)"
proof (induction code rule: tokenize_ruby_code.induct)
  case 1
  show ?case by simp
next
  case (2 c cs)
  show ?case
  proof (cases "is_ident_start c")
    case True
    have "takeWhile is_ident_char cs @ filter (\<lambda>c. \<not> is_space c) (dropWhile is_ident_char cs)
          = filter (\<lambda>c. \<not> is_space c) cs"
      by (rule filter_takeWhile_dropWhile) (rule ident_char_not_space)
    with True 2 show ?thesis
      by (simp add: ident_char_not_space ident_start_ident_char)
  next
    case False
    with 2 show ?thesis by simp
  qed
qed

lemma tokenize_ident_run:
  assumes "is_ident_start c" and "xs = [] \<or> \<not> is_ident_char (hd xs)"
  shows "tokenize_ruby_code (c # takeWhile is_ident_char cs @ xs)
         = (c # takeWhile is_ident_char cs) # tokenize_ruby_code xs"
proof -
  have all: "\<And>x. x \<in> set (takeWhile is_ident_char cs) \<Longrightarrow> is_ident_char x"
    by (rule set_takeWhileD[THEN conjunct2])
  have stop: "takeWhile is_ident_char xs = []" "dropWhile is_ident_char xs = xs"
    using assms(2) by (cases xs; simp)+
  have "takeWhile is_ident_char (takeWhile is_ident_char cs @ xs) = takeWhile is_ident_char cs"
    using takeWhile_append2[of "takeWhile is_ident_char cs" is_ident_char xs] all stop by simp
  moreover have "dropWhile is_ident_char (takeWhile is_ident_char cs @ xs) = xs"
    using dropWhile_append2[of "takeWhile is_ident_char cs" is_ident_char xs] all stop by simp
  ultimately show ?thesis using assms(1) by simp
qed

lemma token_at:
  "tokenize_ruby_code code = before @ t # after \<Longrightarrow>
   \<exists>pre post. code = pre @ t @ post \<and> tokenize_ruby_code pre = before
      \<and> tokenize_ruby_code post = after \<and> (ident_at pre t post \<or> punct_token t)"
proof (induction code arbitrary: before rule: tokenize_ruby_code.induct)
  case 1
  then show ?case by simp
next
  case (2 c cs)
  let ?tok = "c # takeWhile is_ident_char cs"
  let ?rest = "dropWhile is_ident_char cs"
  have stop: "?rest = [] \<or> \<not> is_ident_char (hd ?rest)"
    using hd_dropWhile[of is_ident_char cs] by blast
  show ?case
  proof (cases "is_ident_start c")
    case True
    with "2.prems" have eq: "?tok # tokenize_ruby_code ?rest = before @ t # after" by simp
    show ?thesis
    proof (cases before)
      case Nil
      with eq have t: "t = ?tok" "after = tokenize_ruby_code ?rest" by simp_all
      have "ident_token t"
        using t(1) True by (auto simp: ident_token_def ident_start_ident_char dest: set_takeWhileD)
      with stop have "ident_at [] t ?rest" by (simp add: ident_at_def)
      moreover have "c # cs = [] @ t @ ?rest" using t(1) by simp
      ultimately show ?thesis using Nil t(2) by (metis tokenize_ruby_code.simps(1))
    next
      case (Cons b before')
      with eq have b: "b = ?tok" "tokenize_ruby_code ?rest = before' @ t # after" by simp_all
      from "2.IH"(1)[OF True b(2)] obtain pre' post' where
        d: "?rest = pre' @ t @ post'" "tokenize_ruby_code pre' = before'"
           "tokenize_ruby_code post' = after" "ident_at pre' t post' \<or> punct_token t"
        by blast
      have t_ne: "t \<noteq> []" using d(4) by (auto simp: ident_at_def ident_token_def punct_token_def)
      have code: "c # cs = (?tok @ pre') @ t @ post'"
        using d(1) takeWhile_dropWhile_id[of is_ident_char cs] by (metis append.assoc append_Cons)
      have pre_stop: "pre' = [] \<or> \<not> is_ident_char (hd pre')"
        using stop d(1) by (cases pre') auto
      have toks: "tokenize_ruby_code (?tok @ pre') = before"
        using tokenize_ident_run[OF True pre_stop, of cs] d(2) b(1) Cons by simp
      have "ident_at (?tok @ pre') t post' \<or> punct_token t"
      proof (cases "punct_token t")
        case True
        then show ?thesis by simp
      next
        case False
        with d(4) have i: "ident_at pre' t post'" by simp
        have "pre' \<noteq> []"
        proof
          assume "pre' = []"
          with d(1) t_ne have "?rest \<noteq> []" "hd ?rest = hd t" by auto
          with stop have "\<not> is_ident_char (hd t)" by auto
          with i show False by (auto simp: ident_at_def ident_token_def ident_start_ident_char)
        qed
        with i show ?thesis by (simp add: ident_at_def)
      qed
      with code toks d(3) show ?thesis by blast
    qed
  next
    case False
    show ?thesis
    proof (cases "is_space c")
      case True
      with False "2.prems" have "tokenize_ruby_code cs = before @ t # after" by simp
      from "2.IH"(3)[OF False _ this] True obtain pre' post' where
        d: "cs = pre' @ t @ post'" "tokenize_ruby_code pre' = before"
           "tokenize_ruby_code post' = after" "ident_at pre' t post' \<or> punct_token t"
        by auto
      have "c # cs = (c # pre') @ t @ post'" using d(1) by simp
      moreover have "tokenize_ruby_code (c # pre') = before" using d(2) False True by simp
      moreover have "ident_at (c # pre') t post' \<or> punct_token t"
        using d(4) False by (auto simp: ident_at_def)
      ultimately show ?thesis using d(3) by blast
    next
      case ns: False
      with False "2.prems" have eq: "[c] # tokenize_ruby_code cs = before @ t # after" by simp
      show ?thesis
      proof (cases before)
        case Nil
        with eq have t: "t = [c]" "after = tokenize_ruby_code cs" by simp_all
        have "punct_token t" using t(1) False ns by (simp add: punct_token_def)
        moreover have "c # cs = [] @ t @ cs" using t(1) by simp
        ultimately show ?thesis using Nil t(2) by (metis tokenize_ruby_code.simps(1))
      next
        case (Cons b before')
        with eq have b: "b = [c]" "tokenize_ruby_code cs = before' @ t # after" by simp_all
        from "2.IH"(2)[OF False _ b(2)] ns obtain pre' post' where
          d: "cs = pre' @ t @ post'" "tokenize_ruby_code pre' = before'"
             "tokenize_ruby_code post' = after" "ident_at pre' t post' \<or> punct_token t"
          by auto
        have "c # cs = (c # pre') @ t @ post'" using d(1) by simp
        moreover have "tokenize_ruby_code (c # pre') = before"
          using d(2) False ns b(1) Cons by simp
        moreover have "ident_at (c # pre') t post' \<or> punct_token t"
          using d(4) False by (auto simp: ident_at_def)
        ultimately show ?thesis using d(3) by blast
      qed
    qed
  qed
qed

text \<open>
  C8 (amended). Take any token of any input together with the tokens emitted before and
  after it. The input splits into the text before the token, the token and the text after
  it, such that the text before yields exactly the tokens before and the text after
  exactly the tokens after; so this is the place where the lexer took the token. There the
  token is either an identifier, that is a letter or underscore followed by letters,
  digits and underscores, which is maximal: the text after does not go on with an
  identifier character and the text before does not end with a letter or underscore. Or it
  is exactly one character that is neither whitespace nor a letter or underscore (a digit
  is such a character). No token contains whitespace, and the lexer is a total function:
  every input is accepted.
\<close>

theorem token_shapes:
  assumes "tokenize_ruby_code code = before @ t # after"
  shows "(\<exists>pre post. code = pre @ t @ post
            \<and> tokenize_ruby_code pre = before \<and> tokenize_ruby_code post = after
            \<and> ((ident_token t \<and> (post = [] \<or> \<not> is_ident_char (hd post))
                   \<and> (pre = [] \<or> \<not> is_ident_start (last pre)))
                \<or> punct_token t))
       \<and> (\<forall>c \<in> set t. \<not> is_space c)"
proof -
  from token_at[OF assms] obtain pre post where
    d: "code = pre @ t @ post" "tokenize_ruby_code pre = before"
       "tokenize_ruby_code post = after" "ident_at pre t post \<or> punct_token t" by blast
  have "\<forall>c \<in> set t. \<not> is_space c"
  proof (cases "punct_token t")
    case True
    then obtain c where "t = [c]" "\<not> is_space c"
      by (cases t) (auto simp: punct_token_def)
    then show ?thesis by simp
  next
    case False
    with d(4) show ?thesis
      by (auto simp: ident_at_def ident_token_def dest: ident_char_not_space)
  qed
  with d show ?thesis unfolding ident_at_def by blast
qed

text \<open>Witness of C8: the token \<open>ab\<close> of the input \<open>1ab+\<close>, between the tokens \<open>1\<close>
  and \<open>+\<close>.\<close>

theorem token_shapes_witness:
  "tokenize_ruby_code ''1ab+'' = [''1''] @ ''ab'' # [''+'']
   \<and> \<not> is_space (CHR ''a'') \<and> \<not> is_space (CHR ''b'')"
proof -
  have h: "tokenize_ruby_code ''1ab+'' = [''1''] @ ''ab'' # [''+'']"
    by (simp add: is_ident_start_def is_ident_char_def is_space_def)
  from token_shapes[OF h] h show ?thesis by simp
qed

text \<open>
  Counterexample to C8 as stated: on \<open>12\<close> the lexer emits the two tokens \<open>1\<close> and
  \<open>2\<close>, where the maximal run of alphabet characters is \<open>12\<close>.
\<close>

theorem token_shapes_counterexample:
  "tokenize_ruby_code ''12'' = [''1'', ''2'']
   \<and> spec_tokenize ''12'' = [''12'']
   \<and> tokenize_ruby_code ''12'' \<noteq> spec_tokenize ''12''"
  by (simp add: is_ident_start_def is_ident_char_def is_space_def)

section \<open>The parser\<close>

lemma parse_loop_append:
  "parse_loop st (xs @ ys) =
     (case parse_loop st xs of Inl e \<Rightarrow> Inl e | Inr st' \<Rightarrow> parse_loop st' ys)"
  by (induction xs arbitrary: st) (auto split: sum.splits)

lemma end_not_block_keyword: "''end'' \<notin> set block_keywords"
  by (simp add: block_keywords_def)

lemma parse_step_end:
  "parse_step st ''end'' =
     (case stack st of
        [] \<Rightarrow> Inl IndexError
      | (k, body) # rest \<Rightarrow>
          (case rest of
             (pk, pbody) # rest' \<Rightarrow>
               Inr (st\<lparr>stack := (pk, pbody @ [Block k body]) # rest'\<rparr>)
           | [] \<Rightarrow> Inr (st\<lparr>ast := ast st @ [Block k body], stack := []\<rparr>)))"
  unfolding parse_step_def using end_not_block_keyword by simp

text \<open>
  C2. When the parser sees \<^verbatim>\<open>end\<close> with a block on top of the stack (as at every
  \<^verbatim>\<open>end\<close> of a well-balanced sequence), it pops that block. If the stack is then
  empty the popped node is appended to the Forest; otherwise it becomes the last child of
  the new top of the stack. The tokens of \<^verbatim>\<open>class Foo def bar end end\<close> parse to one
  top-level class node whose body is the fragment \<open>Foo\<close> followed by a def node.
\<close>

theorem end_pops_and_attaches:
  assumes "parse_loop \<lparr>ast = [], stack = []\<rparr> pre = Inr st"
    and "stack st = (k, body) # rest"
  shows "(rest = [] \<longrightarrow>
            parse_loop \<lparr>ast = [], stack = []\<rparr> (pre @ ''end'' # post) =
            parse_loop (st\<lparr>ast := ast st @ [Block k body], stack := []\<rparr>) post)
       \<and> (\<forall>pk pbody rest'. rest = (pk, pbody) # rest' \<longrightarrow>
            parse_loop \<lparr>ast = [], stack = []\<rparr> (pre @ ''end'' # post) =
            parse_loop (st\<lparr>stack := (pk, pbody @ [Block k body]) # rest'\<rparr>) post)
       \<and> parse_tokens (tokenize_ruby_code ''class Foo def bar end end'') =
            Inr [Block ''class'' [Code ''Foo'', Block ''def'' [Code ''bar'']]]"
proof (intro conjI)
  show "parse_tokens (tokenize_ruby_code ''class Foo def bar end end'') =
            Inr [Block ''class'' [Code ''Foo'', Block ''def'' [Code ''bar'']]]"
    by (simp add: is_ident_start_def is_ident_char_def is_space_def
        parse_tokens_def parse_step_def block_keywords_def)
qed (use assms in \<open>simp_all add: parse_loop_append parse_step_end\<close>)

theorem end_pops_and_attaches_witness:
  "parse_loop \<lparr>ast = [], stack = []\<rparr> [''class'', ''Foo'', ''def'', ''bar'']
     = Inr \<lparr>ast = [], stack = [(''def'', [Code ''bar'']), (''class'', [Code ''Foo''])]\<rparr>
   \<and> parse_loop \<lparr>ast = [], stack = []\<rparr> ([''class'', ''Foo'', ''def'', ''bar''] @ ''end'' # [''end''])
     = parse_loop \<lparr>ast = [],
          stack = [(''class'', [Code ''Foo'', Block ''def'' [Code ''bar'']])]\<rparr> [''end'']
   \<and> parse_loop \<lparr>ast = [], stack = []\<rparr> [''class'', ''Foo'']
     = Inr \<lparr>ast = [], stack = [(''class'', [Code ''Foo''])]\<rparr>
   \<and> parse_loop \<lparr>ast = [], stack = []\<rparr> ([''class'', ''Foo''] @ ''end'' # [])
     = parse_loop \<lparr>ast = [Block ''class'' [Code ''Foo'']], stack = []\<rparr> []"
proof -
  have a: "parse_loop \<lparr>ast = [], stack = []\<rparr> [''class'', ''Foo'', ''def'', ''bar'']
     = Inr \<lparr>ast = [], stack = [(''def'', [Code ''bar'']), (''class'', [Code ''Foo''])]\<rparr>"
    by (simp add: parse_step_def block_keywords_def)
  have b: "stack \<lparr>ast = [], stack = [(''def'', [Code ''bar'']), (''class'', [Code ''Foo''])]\<rparr>
     = (''def'', [Code ''bar'']) # [(''class'', [Code ''Foo''])]"
    by simp
  have c: "parse_loop \<lparr>ast = [], stack = []\<rparr> [''class'', ''Foo'']
     = Inr \<lparr>ast = [], stack = [(''class'', [Code ''Foo''])]\<rparr>"
    by (simp add: parse_step_def block_keywords_def)
  have d: "stack \<lparr>ast = [], stack = [(''class'', [Code ''Foo''])]\<rparr>
     = (''class'', [Code ''Foo'']) # []"
    by simp
  from end_pops_and_attaches[OF a b, of "[''end'']"] end_pops_and_attaches[OF c d, of "[]"] a c
  show ?thesis by simp
qed

lemma parse_step_keeps_ast:
  "parse_step st t = Inr st' \<Longrightarrow> stack st' \<noteq> [] \<Longrightarrow> ast st' = ast st"
  by (auto simp: parse_step_def split: if_splits list.splits)

lemma parse_step_from_empty:
  "parse_step st t = Inr st' \<Longrightarrow> stack st = [] \<Longrightarrow> stack st' \<noteq> []
   \<Longrightarrow> t \<in> set block_keywords \<and> ast st' = ast st"
  by (auto simp: parse_step_def split: if_splits list.splits)

lemma open_blocks_split:
  "parse_loop st ts = Inr st' \<Longrightarrow> stack st' \<noteq> [] \<Longrightarrow>
     (stack st \<noteq> [] \<and> ast st' = ast st)
   \<or> (\<exists>pre post s. ts = pre @ post \<and> post \<noteq> [] \<and> hd post \<in> set block_keywords
          \<and> parse_loop st pre = Inr s \<and> stack s = [] \<and> ast st' = ast s)"
proof (induction ts arbitrary: st' rule: rev_induct)
  case Nil
  then show ?case by simp
next
  case (snoc x xs)
  from snoc.prems(1) obtain s1 where s1: "parse_loop st xs = Inr s1" "parse_step s1 x = Inr st'"
    by (auto simp: parse_loop_append split: sum.splits)
  show ?case
  proof (cases "stack s1 = []")
    case True
    from parse_step_from_empty[OF s1(2) True snoc.prems(2)]
    have "xs @ [x] = xs @ [x] \<and> [x] \<noteq> [] \<and> hd [x] \<in> set block_keywords
          \<and> parse_loop st xs = Inr s1 \<and> stack s1 = [] \<and> ast st' = ast s1"
      using s1(1) True by simp
    then show ?thesis by blast
  next
    case False
    have keep: "ast st' = ast s1"
      by (rule parse_step_keeps_ast[OF s1(2) snoc.prems(2)])
    from snoc.IH[OF s1(1) False] show ?thesis
    proof
      assume "stack st \<noteq> [] \<and> ast s1 = ast st"
      with keep show ?thesis by simp
    next
      assume "\<exists>pre post s. xs = pre @ post \<and> post \<noteq> [] \<and> hd post \<in> set block_keywords
          \<and> parse_loop st pre = Inr s \<and> stack s = [] \<and> ast s1 = ast s"
      then obtain pre post s where d: "xs = pre @ post" "post \<noteq> []"
          "hd post \<in> set block_keywords" "parse_loop st pre = Inr s" "stack s = []"
          "ast s1 = ast s"
        by blast
      then have "xs @ [x] = pre @ (post @ [x]) \<and> post @ [x] \<noteq> []
          \<and> hd (post @ [x]) \<in> set block_keywords
          \<and> parse_loop st pre = Inr s \<and> stack s = [] \<and> ast st' = ast s"
        using keep by simp
      then show ?thesis by blast
    qed
  qed
qed

text \<open>
  C3. When blocks are still on the stack at the end of the input, parsing returns
  normally, and the Forest returned is the Forest of a prefix of the input after which the
  stack was empty: everything from the block opener that follows this prefix on is
  dropped, so no block left on the stack is attached to the Forest. The tokens of
  \<^verbatim>\<open>class Foo def bar\<close> parse to the empty Forest.
\<close>

theorem unclosed_blocks_discarded:
  assumes "parse_loop \<lparr>ast = [], stack = []\<rparr> tokens = Inr st'"
    and "stack st' \<noteq> []"
  shows "(\<exists>pre post st. tokens = pre @ post \<and> post \<noteq> [] \<and> hd post \<in> set block_keywords
            \<and> parse_loop \<lparr>ast = [], stack = []\<rparr> pre = Inr st \<and> stack st = []
            \<and> parse_tokens pre = Inr (ast st)
            \<and> parse_tokens tokens = Inr (ast st))
       \<and> parse_tokens (tokenize_ruby_code ''class Foo def bar'') = Inr []"
proof
  from open_blocks_split[OF assms]
  obtain pre post s where d: "tokens = pre @ post" "post \<noteq> []"
      "hd post \<in> set block_keywords" "parse_loop \<lparr>ast = [], stack = []\<rparr> pre = Inr s"
      "stack s = []" "ast st' = ast s"
    by auto
  have "parse_tokens pre = Inr (ast s)" "parse_tokens tokens = Inr (ast s)"
    using d(4,6) assms(1) by (simp_all add: parse_tokens_def)
  with d show "\<exists>pre post st. tokens = pre @ post \<and> post \<noteq> [] \<and> hd post \<in> set block_keywords
            \<and> parse_loop \<lparr>ast = [], stack = []\<rparr> pre = Inr st \<and> stack st = []
            \<and> parse_tokens pre = Inr (ast st)
            \<and> parse_tokens tokens = Inr (ast st)"
    by blast
next
  show "parse_tokens (tokenize_ruby_code ''class Foo def bar'') = Inr []"
    by (simp add: is_ident_start_def is_ident_char_def is_space_def
        parse_tokens_def parse_step_def block_keywords_def)
qed

theorem unclosed_blocks_discarded_witness:
  "parse_loop \<lparr>ast = [], stack = []\<rparr> [''x'', ''class'', ''Foo'', ''def'', ''bar'']
     = Inr \<lparr>ast = [Code ''x''], stack = [(''def'', [Code ''bar'']), (''class'', [Code ''Foo''])]\<rparr>
   \<and> parse_tokens [''x'', ''class'', ''Foo'', ''def'', ''bar''] = Inr [Code ''x'']"
proof -
  have a: "parse_loop \<lparr>ast = [], stack = []\<rparr> [''x'', ''class'', ''Foo'', ''def'', ''bar'']
     = Inr \<lparr>ast = [Code ''x''], stack = [(''def'', [Code ''bar'']), (''class'', [Code ''Foo''])]\<rparr>"
    by (simp add: parse_step_def block_keywords_def)
  have b: "stack \<lparr>ast = [Code ''x''],
                  stack = [(''def'', [Code ''bar'']), (''class'', [Code ''Foo''])]\<rparr> \<noteq> []"
    by simp
  from unclosed_blocks_discarded[OF a b] a show ?thesis
    by (auto simp: parse_tokens_def)
qed

lemma parse_loop_total:
  "\<forall>pre post s. ts = pre @ ''end'' # post \<and> parse_loop st pre = Inr s \<longrightarrow> stack s \<noteq> []
   \<Longrightarrow> \<exists>s'. parse_loop st ts = Inr s'"
proof (induction ts arbitrary: st)
  case Nil
  then show ?case by simp
next
  case (Cons t ts)
  have "\<exists>s1. parse_step st t = Inr s1"
  proof (cases "t = ''end''")
    case True
    with Cons.prems have "stack st \<noteq> []" by (metis append_Nil parse_loop.simps(1))
    with True show ?thesis by (auto simp: parse_step_end split: list.splits)
  next
    case False
    then show ?thesis by (auto simp: parse_step_def split: list.splits)
  qed
  then obtain s1 where s1: "parse_step st t = Inr s1" by blast
  have "\<forall>pre post s. ts = pre @ ''end'' # post \<and> parse_loop s1 pre = Inr s \<longrightarrow> stack s \<noteq> []"
  proof (intro allI impI)
    fix pre post s assume h: "ts = pre @ ''end'' # post \<and> parse_loop s1 pre = Inr s"
    then have "t # ts = (t # pre) @ ''end'' # post \<and> parse_loop st (t # pre) = Inr s"
      using s1 by simp
    with Cons.prems show "stack s \<noteq> []" by blast
  qed
  from Cons.IH[OF this] s1 show ?case by simp
qed

text \<open>
  C4. If some \<^verbatim>\<open>end\<close> is met while the stack is empty, parsing fails with the
  \<^verbatim>\<open>IndexError\<close> of \<^verbatim>\<open>stack.pop()\<close> and returns no Forest. If every \<^verbatim>\<open>end\<close> finds a
  non-empty stack, parsing returns a Forest.
\<close>

theorem unmatched_end_raises:
  "((\<exists>pre post st. tokens = pre @ ''end'' # post
        \<and> parse_loop \<lparr>ast = [], stack = []\<rparr> pre = Inr st \<and> stack st = [])
      \<longrightarrow> parse_tokens tokens = Inl IndexError)
   \<and> ((\<forall>pre post st. tokens = pre @ ''end'' # post
        \<and> parse_loop \<lparr>ast = [], stack = []\<rparr> pre = Inr st \<longrightarrow> stack st \<noteq> [])
      \<longrightarrow> (\<exists>forest. parse_tokens tokens = Inr forest))"
proof (intro conjI impI)
  assume "\<exists>pre post st. tokens = pre @ ''end'' # post
        \<and> parse_loop \<lparr>ast = [], stack = []\<rparr> pre = Inr st \<and> stack st = []"
  then show "parse_tokens tokens = Inl IndexError"
    by (auto simp: parse_tokens_def parse_loop_append parse_step_end)
next
  assume "\<forall>pre post st. tokens = pre @ ''end'' # post
        \<and> parse_loop \<lparr>ast = [], stack = []\<rparr> pre = Inr st \<longrightarrow> stack st \<noteq> []"
  from parse_loop_total[OF this] show "\<exists>forest. parse_tokens tokens = Inr forest"
    by (auto simp: parse_tokens_def)
qed

theorem unmatched_end_raises_witness:
  "parse_tokens [''class'', ''end'', ''end'', ''x''] = Inl IndexError
   \<and> (\<exists>forest. parse_tokens [''class'', ''end'', ''x''] = Inr forest)"
proof -
  have a: "\<exists>pre post st. [''class'', ''end'', ''end'', ''x''] = pre @ ''end'' # post
        \<and> parse_loop \<lparr>ast = [], stack = []\<rparr> pre = Inr st \<and> stack st = []"
  proof (intro exI conjI)
    show "[''class'', ''end'', ''end'', ''x''] = [''class'', ''end''] @ ''end'' # [''x'']" by simp
    show "parse_loop \<lparr>ast = [], stack = []\<rparr> [''class'', ''end'']
          = Inr \<lparr>ast = [Block ''class'' []], stack = []\<rparr>"
      by (simp add: parse_step_def block_keywords_def)
    show "stack \<lparr>ast = [Block ''class'' []], stack = []\<rparr> = []" by simp
  qed
  have b: "\<forall>pre post st. [''class'', ''end'', ''x''] = pre @ ''end'' # post
        \<and> parse_loop \<lparr>ast = [], stack = []\<rparr> pre = Inr st \<longrightarrow> stack st \<noteq> []"
    by (auto simp: Cons_eq_append_conv parse_step_def block_keywords_def)
  from unmatched_end_raises[of "[''class'', ''end'', ''end'', ''x'']"] a
       unmatched_end_raises[of "[''class'', ''end'', ''x'']"] b
  show ?thesis by blast
qed

section \<open>The renderer\<close>

lemma keyword_simps [simp]:
  "keyword ''class'' = Inr ''public class''"
  "keyword ''def'' = Inr ''public void''"
  "keyword ''if'' = Inr ''if''"
  "keyword ''while'' = Inr ''while''"
  by (simp_all add: keyword_def RUBY_TO_CSHARP_KEYWORDS_def)

lemma transpile_body_acc:
  "(\<And>n out. n \<in> set ns \<Longrightarrow>
      transpile_node n out = (case transpile_node n [] of Inl e \<Rightarrow> Inl e | Inr r \<Rightarrow> Inr (out @ r)))
   \<Longrightarrow> transpile_body ns out =
       (case transpile_body ns [] of Inl e \<Rightarrow> Inl e | Inr r \<Rightarrow> Inr (out @ r))"
proof (induction ns arbitrary: out)
  case Nil
  show ?case by simp
next
  case (Cons n ns)
  have n: "transpile_node n out = (case transpile_node n [] of Inl e \<Rightarrow> Inl e | Inr r \<Rightarrow> Inr (out @ r))" for out
    by (rule Cons.prems) simp
  have ns: "transpile_body ns out = (case transpile_body ns [] of Inl e \<Rightarrow> Inl e | Inr r \<Rightarrow> Inr (out @ r))" for out
    by (rule Cons.IH) (simp add: Cons.prems)
  show ?case
  proof (cases "transpile_node n []")
    case (Inl e)
    then show ?thesis using n[of out] by simp
  next
    case (Inr r)
    then show ?thesis using n[of out] ns[of "out @ r"] ns[of r]
      by (simp split: sum.splits)
  qed
qed

lemma transpile_block_rendered:
  "k \<in> set render_kinds \<Longrightarrow>
   transpile_node (Block k body) out =
     (case first_value body of
        Inl e \<Rightarrow> Inl e
      | Inr v \<Rightarrow>
          (case transpile_body (tl body) (out @ open_line k v @ ''\<newline>'') of
             Inl e \<Rightarrow> Inl e
           | Inr out' \<Rightarrow> Inr (out' @ close_line k @ ''\<newline>'')))"
  by (auto simp: render_kinds_def open_line_def close_line_def split: sum.splits)

lemma transpile_block_other:
  "k \<notin> set render_kinds \<Longrightarrow>
   transpile_node (Block k body) out = (if k = ''code'' then Inl KeyError else Inr out)"
  by (auto simp: render_kinds_def)

lemma in_set_tl: "x \<in> set (tl xs) \<Longrightarrow> x \<in> set xs"
  by (cases xs) simp_all

lemma transpile_node_acc:
  "transpile_node n out = (case transpile_node n [] of Inl e \<Rightarrow> Inl e | Inr r \<Rightarrow> Inr (out @ r))"
proof (induction n arbitrary: out)
  case (Code v)
  show ?case by simp
next
  case (Block k body)
  have b: "transpile_body (tl body) out =
       (case transpile_body (tl body) [] of Inl e \<Rightarrow> Inl e | Inr r \<Rightarrow> Inr (out @ r))" for out
    by (rule transpile_body_acc) (rule Block.IH, erule in_set_tl)
  show ?case
  proof (cases "k \<in> set render_kinds")
    case True
    show ?thesis
      unfolding transpile_block_rendered[OF True]
      using b[of "out @ open_line k v @ ''\<newline>''" for v] b[of "open_line k v @ ''\<newline>''" for v]
      by (auto split: sum.splits)
  next
    case False
    then show ?thesis by (simp add: transpile_block_other del: transpile_node.simps)
  qed
qed

lemma transpile_body_acc':
  "transpile_body ns out =
       (case transpile_body ns [] of Inl e \<Rightarrow> Inl e | Inr r \<Rightarrow> Inr (out @ r))"
  by (rule transpile_body_acc) (rule transpile_node_acc)

lemma split_lines_Nil_iff: "split_lines cs = [] \<longleftrightarrow> cs = []"
  by (cases cs) (auto split: list.splits)

lemma split_lines_line:
  "CHR ''\<newline>'' \<notin> set l \<Longrightarrow> split_lines (l @ CHR ''\<newline>'' # rest) = l # split_lines rest"
  by (induction l) auto

lemma split_lines_append:
  "a = [] \<or> last a = CHR ''\<newline>'' \<Longrightarrow> split_lines (a @ b) = split_lines a @ split_lines b"
proof (induction a)
  case Nil
  show ?case by simp
next
  case (Cons c cs)
  show ?case
  proof (cases "c = CHR ''\<newline>''")
    case True
    with Cons show ?thesis by (cases "cs = []") auto
  next
    case False
    with Cons.prems have cs: "cs \<noteq> []" "last cs = CHR ''\<newline>''" by (auto split: if_splits)
    with Cons.IH have "split_lines (cs @ b) = split_lines cs @ split_lines b" by simp
    moreover from cs obtain l ls where "split_lines cs = l # ls"
      by (cases "split_lines cs") (auto simp: split_lines_Nil_iff)
    ultimately show ?thesis using False by simp
  qed
qed

lemma chunk_ok_Nil: "chunk_ok allow []"
  by (simp add: chunk_ok_def)

lemma chunk_ok_append: "chunk_ok allow a \<Longrightarrow> chunk_ok allow b \<Longrightarrow> chunk_ok allow (a @ b)"
proof -
  assume a: "chunk_ok allow a" and b: "chunk_ok allow b"
  from a have "split_lines (a @ b) = split_lines a @ split_lines b"
    by (simp add: chunk_ok_def split_lines_append)
  moreover from a b have "a @ b = [] \<or> last (a @ b) = CHR ''\<newline>''"
    by (cases "b = []") (simp_all add: chunk_ok_def)
  ultimately show ?thesis using a b by (auto simp: chunk_ok_def)
qed

lemma chunk_ok_line:
  "CHR ''\<newline>'' \<notin> set l \<Longrightarrow> line_ok allow l \<Longrightarrow> chunk_ok allow (l @ ''\<newline>'')"
  using split_lines_line[of l "[]"] by (simp add: chunk_ok_def)

lemma newline_is_space: "is_space (CHR ''\<newline>'')"
  by (simp add: is_space_def)

lemma blank_is_space: "is_space (CHR '' '')"
  by (simp add: is_space_def)

lemma indent_of_blank: "indent_of (CHR '' '' # l) = Suc (indent_of l)"
  by (simp add: indent_of_def)

lemma indent_of_token:
  "\<forall>c \<in> set v. \<not> is_space c \<Longrightarrow> indent_of (v @ l) = (if v = [] then indent_of l else 0)"
  using blank_is_space by (cases v) (auto simp: indent_of_def)

lemma code_line_ok:
  "\<forall>c \<in> set v. \<not> is_space c \<Longrightarrow> chunk_ok allow (''    '' @ v @ ''\<newline>'')"
proof -
  assume v: "\<forall>c \<in> set v. \<not> is_space c"
  have "CHR ''\<newline>'' \<notin> set (''    '' @ v)" using v newline_is_space by auto
  moreover have "indent_of (''    '' @ v) = 4"
    using indent_of_token[OF v, of "[]"] by (simp add: indent_of_blank indent_of_def)
  ultimately show ?thesis
    using chunk_ok_line[of "''    '' @ v" allow] by (simp add: line_ok_def indented_by_def)
qed

lemma indent_four:
  "c \<noteq> CHR '' '' \<Longrightarrow> indent_of (CHR '' '' # CHR '' '' # CHR '' '' # CHR '' '' # c # l) = 4"
  by (simp add: indent_of_def)

lemma open_line_simps:
  "open_line ''class'' v = ''public class '' @ v @ '' {''"
  "open_line ''def'' v = ''    public void '' @ v @ ''() {''"
  "open_line ''if'' v = ''    if ('' @ v @ '') {''"
  "open_line ''while'' v = ''    while ('' @ v @ '') {''"
  by (simp_all add: open_line_def)

lemma close_line_simps:
  "close_line ''class'' = ''}''"
  "k \<noteq> ''class'' \<Longrightarrow> close_line k = ''    }''"
  by (simp_all add: close_line_def)

lemma render_kinds_cases:
  "k \<in> set render_kinds \<Longrightarrow> k = ''class'' \<or> k = ''def'' \<or> k = ''if'' \<or> k = ''while''"
  by (simp add: render_kinds_def)

lemma open_line_no_newline:
  assumes "k \<in> set render_kinds" and "\<forall>c \<in> set v. \<not> is_space c"
  shows "CHR ''\<newline>'' \<notin> set (open_line k v)"
proof -
  have v: "CHR ''\<newline>'' \<notin> set v" using assms(2) newline_is_space by blast
  from render_kinds_cases[OF assms(1)] show ?thesis
  proof (elim disjE)
    assume "k = ''class''" then show ?thesis using v by (simp add: open_line_simps)
  next
    assume "k = ''def''" then show ?thesis using v by (simp add: open_line_simps)
  next
    assume "k = ''if''" then show ?thesis using v by (simp add: open_line_simps)
  next
    assume "k = ''while''" then show ?thesis using v by (simp add: open_line_simps)
  qed
qed

lemma open_line_indent:
  assumes "k \<in> set render_kinds" and "k \<noteq> ''class''"
  shows "indent_of (open_line k v) = 4"
proof -
  from render_kinds_cases[OF assms(1)] assms(2)
  have "k = ''def'' \<or> k = ''if'' \<or> k = ''while''" by blast
  then show ?thesis
  proof (elim disjE)
    assume "k = ''def''" then show ?thesis by (simp add: open_line_simps indent_four)
  next
    assume "k = ''if''" then show ?thesis by (simp add: open_line_simps indent_four)
  next
    assume "k = ''while''" then show ?thesis by (simp add: open_line_simps indent_four)
  qed
qed

lemma open_line_ok:
  assumes "k \<in> set render_kinds" and "\<forall>c \<in> set v. \<not> is_space c" and "allow \<or> k \<noteq> ''class''"
  shows "chunk_ok allow (open_line k v @ ''\<newline>'')"
proof -
  have "line_ok allow (open_line k v)"
  proof (cases "k = ''class''")
    case True
    then have "class_line (open_line k v)" by (simp add: open_line_simps class_line_def)
    with True assms(3) show ?thesis by (simp add: line_ok_def)
  next
    case False
    then show ?thesis using open_line_indent[OF assms(1)] by (simp add: line_ok_def indented_by_def)
  qed
  with open_line_no_newline[OF assms(1,2)] show ?thesis by (rule chunk_ok_line)
qed

lemma close_line_ok:
  assumes "allow \<or> k \<noteq> ''class''"
  shows "chunk_ok allow (close_line k @ ''\<newline>'')"
proof -
  have "line_ok allow (close_line k)"
  proof (cases "k = ''class''")
    case True
    with assms show ?thesis by (simp add: close_line_simps line_ok_def class_line_def)
  next
    case False
    then show ?thesis
      by (simp add: close_line_simps line_ok_def indented_by_def indent_four)
  qed
  moreover have "CHR ''\<newline>'' \<notin> set (close_line k)" by (simp add: close_line_def)
  ultimately show ?thesis by (rule chunk_ok_line[rotated])
qed

lemma first_value_Inr: "first_value body = Inr v \<Longrightarrow> \<exists>rest. body = Code v # rest"
  by (auto simp: first_value_def split: list.splits node.splits)

lemma body_chunk_ok:
  assumes "\<And>n r. n \<in> set ns \<Longrightarrow> transpile_node n [] = Inr r \<Longrightarrow> chunk_ok allow r"
    and "transpile_body ns [] = Inr r"
  shows "chunk_ok allow r"
  using assms
proof (induction ns arbitrary: r)
  case Nil
  then show ?case by (simp add: chunk_ok_Nil)
next
  case (Cons n ns)
  from Cons.prems(2) obtain r1 where r1: "transpile_node n [] = Inr r1"
    by (auto split: sum.splits)
  with Cons.prems(2) have "transpile_body ns r1 = Inr r" by simp
  then obtain r2 where r2: "transpile_body ns [] = Inr r2" "r = r1 @ r2"
    using transpile_body_acc'[of ns r1] by (auto split: sum.splits)
  have "chunk_ok allow r1" using Cons.prems(1)[of n r1] r1 by simp
  moreover have "chunk_ok allow r2"
  proof (rule Cons.IH[OF _ r2(1)])
    fix m r' assume "m \<in> set ns" "transpile_node m [] = Inr r'"
    then show "chunk_ok allow r'" using Cons.prems(1)[of m r'] by simp
  qed
  ultimately show ?case using r2(2) by (simp add: chunk_ok_append)
qed

lemma block_render_shape:
  assumes "k \<in> set render_kinds" and "transpile_node (Block k body) out = Inr out'"
  shows "\<exists>v r. first_value body = Inr v \<and> transpile_body (tl body) [] = Inr r
           \<and> out' = out @ open_line k v @ ''\<newline>'' @ r @ close_line k @ ''\<newline>''"
proof -
  from assms obtain v where v: "first_value body = Inr v"
    by (auto simp: transpile_block_rendered simp del: transpile_node.simps split: sum.splits)
  with assms obtain o1 where o1: "transpile_body (tl body) (out @ open_line k v @ ''\<newline>'') = Inr o1"
      "out' = o1 @ close_line k @ ''\<newline>''"
    by (auto simp: transpile_block_rendered simp del: transpile_node.simps split: sum.splits)
  then obtain r where "transpile_body (tl body) [] = Inr r" "o1 = (out @ open_line k v @ ''\<newline>'') @ r"
    using transpile_body_acc'[of "tl body" "out @ open_line k v @ ''\<newline>''"]
    by (auto split: sum.splits)
  with v o1 show ?thesis by simp
qed

lemma node_chunk_ok:
  "token_fragments n \<Longrightarrow> allow \<or> no_class n \<Longrightarrow> transpile_node n [] = Inr r \<Longrightarrow> chunk_ok allow r"
proof (induction n arbitrary: r)
  case (Code v)
  then show ?case using code_line_ok[of v allow] by auto
next
  case (Block k body)
  show ?case
  proof (cases "k \<in> set render_kinds")
    case True
    from block_render_shape[OF True Block.prems(3)] obtain v rb where
      s: "first_value body = Inr v" "transpile_body (tl body) [] = Inr rb"
         "r = open_line k v @ ''\<newline>'' @ rb @ close_line k @ ''\<newline>''"
      by auto
    from first_value_Inr[OF s(1)] obtain rest where body: "body = Code v # rest" by blast
    with Block.prems(1) have v: "\<forall>c \<in> set v. \<not> is_space c" by simp
    have ac: "allow \<or> k \<noteq> ''class''" using Block.prems(2) by auto
    have "chunk_ok allow rb"
    proof (rule body_chunk_ok[OF _ s(2)])
      fix n r' assume n: "n \<in> set (tl body)" "transpile_node n [] = Inr r'"
      then have "n \<in> set body" by (simp add: in_set_tl)
      with Block.IH[of n r'] Block.prems(1,2) n(2) show "chunk_ok allow r'" by auto
    qed
    then have "chunk_ok allow (rb @ close_line k @ ''\<newline>'')"
      using close_line_ok[OF ac] by (rule chunk_ok_append)
    with open_line_ok[OF True v ac]
    have "chunk_ok allow ((open_line k v @ ''\<newline>'') @ rb @ close_line k @ ''\<newline>'')"
      by (rule chunk_ok_append)
    then show ?thesis unfolding s(3) by simp
  next
    case False
    with Block.prems(3) have "r = []"
      by (auto simp: transpile_block_other simp del: transpile_node.simps split: if_splits)
    then show ?thesis by (simp add: chunk_ok_Nil)
  qed
qed

text \<open>
  C1 (amended). The input \<^verbatim>\<open>class Greeter\ndef hello\nputs\nend\nend\<close> parses to one
  top-level class node whose body is the fragment \<open>Greeter\<close> followed by one def node with
  the fragments \<open>hello\<close> and \<open>puts\<close>, and it is rendered as five lines of which the third,
  \<open>puts\<close>, is indented by four blanks.
\<close>

theorem greeter_pipeline:
  "tokenize_ruby_code ''class Greeter\<newline>def hello\<newline>puts\<newline>end\<newline>end''
     = [''class'', ''Greeter'', ''def'', ''hello'', ''puts'', ''end'', ''end'']
   \<and> parse_tokens (tokenize_ruby_code ''class Greeter\<newline>def hello\<newline>puts\<newline>end\<newline>end'')
     = Inr [Block ''class'' [Code ''Greeter'', Block ''def'' [Code ''hello'', Code ''puts'']]]
   \<and> transpile_ruby ''class Greeter\<newline>def hello\<newline>puts\<newline>end\<newline>end''
     = Inr ''public class Greeter {\<newline>    public void hello() {\<newline>    puts\<newline>    }\<newline>}\<newline>''
   \<and> split_lines ''public class Greeter {\<newline>    public void hello() {\<newline>    puts\<newline>    }\<newline>}\<newline>''
     = [''public class Greeter {'', ''    public void hello() {'', ''    puts'', ''    }'', ''}'']"
  by (simp add: transpile_ruby_def transpile_to_csharp_def is_ident_start_def is_ident_char_def
      is_space_def parse_tokens_def parse_step_def block_keywords_def first_value_def)

text \<open>Counterexample to C1 as stated: the rendered lines are not the five lines with
  \<open>puts\<close> indented by eight blanks.\<close>

theorem greeter_output_counterexample:
  "transpile_ruby ''class Greeter\<newline>def hello\<newline>puts\<newline>end\<newline>end''
     = Inr ''public class Greeter {\<newline>    public void hello() {\<newline>    puts\<newline>    }\<newline>}\<newline>''
   \<and> split_lines ''public class Greeter {\<newline>    public void hello() {\<newline>    puts\<newline>    }\<newline>}\<newline>''
     \<noteq> [''public class Greeter {'', ''    public void hello() {'', ''        puts'', ''    }'', ''}'']"
  by (simp add: transpile_ruby_def transpile_to_csharp_def is_ident_start_def is_ident_char_def
      is_space_def parse_tokens_def parse_step_def block_keywords_def first_value_def)

text \<open>
  C5. A block node of kind \<^verbatim>\<open>else\<close>, \<^verbatim>\<open>elsif\<close> or \<^verbatim>\<open>do\<close>, whatever its body, leaves the
  output as it was: neither the node nor anything below it is rendered. A Forest holding
  only such a node renders to the empty string.
\<close>

theorem unrendered_kinds_silent:
  "transpile_node (Block ''else'' body) out = Inr out
   \<and> transpile_node (Block ''elsif'' body) out = Inr out
   \<and> transpile_node (Block ''do'' body) out = Inr out
   \<and> transpile_to_csharp [Block ''else'' body] = Inr ''''
   \<and> transpile_to_csharp [Block ''elsif'' body] = Inr ''''
   \<and> transpile_to_csharp [Block ''do'' body] = Inr ''''"
  by (simp add: transpile_to_csharp_def)

lemma chunk_ok_lines: "chunk_ok allow r \<Longrightarrow> \<forall>l \<in> set (split_lines r). line_ok allow l"
  by (simp add: chunk_ok_def)

lemma body_lines:
  assumes "\<forall>n \<in> set nodes. token_fragments n" and "allow \<or> (\<forall>n \<in> set nodes. no_class n)"
    and "transpile_body nodes [] = Inr r"
  shows "\<forall>l \<in> set (split_lines r). line_ok allow l"
proof -
  have "chunk_ok allow r"
  proof (rule body_chunk_ok[OF _ assms(3)])
    fix n r' assume "n \<in> set nodes" "transpile_node n [] = Inr r'"
    with assms(1,2) show "chunk_ok allow r'" using node_chunk_ok[of n allow r'] by blast
  qed
  then show ?thesis by (rule chunk_ok_lines)
qed

lemma transpile_body_append:
  "transpile_body (xs @ ys) out =
     (case transpile_body xs out of Inl e \<Rightarrow> Inl e | Inr out' \<Rightarrow> transpile_body ys out')"
  by (induction xs arbitrary: out) (auto split: sum.splits)

lemma node_chunk_ok_any:
  "token_fragments n \<Longrightarrow> transpile_node n [] = Inr r \<Longrightarrow> chunk_ok True r"
  using node_chunk_ok[of n True r] by simp

lemma body_chunk_ok_any:
  assumes "\<forall>n \<in> set ns. token_fragments n" and "transpile_body ns [] = Inr r"
  shows "chunk_ok True r"
proof (rule body_chunk_ok[OF _ assms(2)])
  fix n r' assume "n \<in> set ns" "transpile_node n [] = Inr r'"
  with assms(1) show "chunk_ok True r'" using node_chunk_ok_any by blast
qed

lemma chunk_ok_split: "chunk_ok allow a \<Longrightarrow> split_lines (a @ b) = split_lines a @ split_lines b"
  by (simp add: chunk_ok_def split_lines_append)

lemma element_lines:
  assumes "\<forall>m \<in> set ns. token_fragments m" and "transpile_body ns [] = Inr r"
    and "ns = pre @ n # post"
  shows "\<exists>rp rn rq. transpile_body pre [] = Inr rp \<and> transpile_node n [] = Inr rn
           \<and> transpile_body post [] = Inr rq
           \<and> split_lines r = split_lines rp @ split_lines rn @ split_lines rq"
proof -
  from assms(2,3) obtain rp where rp: "transpile_body pre [] = Inr rp"
      "transpile_body (n # post) rp = Inr r"
    by (auto simp: transpile_body_append split: sum.splits)
  from rp(2) obtain o1 where o1: "transpile_node n rp = Inr o1" "transpile_body post o1 = Inr r"
    by (auto split: sum.splits)
  from o1(1) obtain rn where rn: "transpile_node n [] = Inr rn" "o1 = rp @ rn"
    using transpile_node_acc[of n rp] by (auto split: sum.splits)
  from o1(2) obtain rq where rq: "transpile_body post [] = Inr rq" "r = o1 @ rq"
    using transpile_body_acc'[of post o1] by (auto split: sum.splits)
  have "chunk_ok True rp" using body_chunk_ok_any[OF _ rp(1)] assms(1,3) by simp
  moreover have "chunk_ok True rn" using node_chunk_ok_any[OF _ rn(1)] assms(1,3) by simp
  ultimately have "split_lines (rp @ rn @ rq) = split_lines rp @ split_lines rn @ split_lines rq"
    by (simp add: chunk_ok_split)
  with rp(1) rn rq show ?thesis by auto
qed

lemma code_lines:
  assumes "token_fragments (Code v)" and "transpile_node (Code v) [] = Inr rn"
  shows "split_lines rn = [''    '' @ v] \<and> indented_by 4 (''    '' @ v)"
proof -
  from assms(1) have v: "\<forall>c \<in> set v. \<not> is_space c" by simp
  have nl: "CHR ''\<newline>'' \<notin> set (''    '' @ v)" using v newline_is_space by auto
  have "rn = (''    '' @ v) @ CHR ''\<newline>'' # []" using assms(2) by simp
  then have "split_lines rn = [''    '' @ v]" using split_lines_line[OF nl, of "[]"] by simp
  moreover have "indent_of (''    '' @ v) = 4"
    using indent_of_token[OF v, of "[]"] by (simp add: indent_of_blank indent_of_def)
  ultimately show ?thesis by (simp add: indented_by_def)
qed

lemma block_lines:
  assumes "k \<in> set render_kinds" and "token_fragments (Block k body)"
    and "transpile_node (Block k body) [] = Inr rn"
  shows "\<exists>name rb. first_value body = Inr name \<and> transpile_body (tl body) [] = Inr rb
           \<and> split_lines rn = open_line k name # split_lines rb @ [close_line k]"
proof -
  from block_render_shape[OF assms(1,3)] obtain name rb where
    s: "first_value body = Inr name" "transpile_body (tl body) [] = Inr rb"
       "rn = [] @ open_line k name @ ''\<newline>'' @ rb @ close_line k @ ''\<newline>''"
    by blast
  from first_value_Inr[OF s(1)] obtain rest where body: "body = Code name # rest" by blast
  with assms(2) have v: "\<forall>c \<in> set name. \<not> is_space c" by simp
  have frag: "\<forall>m \<in> set (tl body). token_fragments m" using assms(2) body by simp
  have nl1: "CHR ''\<newline>'' \<notin> set (open_line k name)"
    by (rule open_line_no_newline[OF assms(1) v])
  have nl2: "CHR ''\<newline>'' \<notin> set (close_line k)" by (simp add: close_line_def)
  have "split_lines rn = open_line k name # split_lines (rb @ close_line k @ ''\<newline>'')"
    using s(3) split_lines_line[OF nl1] by simp
  also have "split_lines (rb @ close_line k @ ''\<newline>'')
             = split_lines rb @ split_lines (close_line k @ ''\<newline>'')"
    using body_chunk_ok_any[OF frag s(2)] by (rule chunk_ok_split)
  also have "split_lines (close_line k @ ''\<newline>'') = [close_line k]"
    using split_lines_line[OF nl2, of "[]"] by simp
  finally show ?thesis using s(1,2) by blast
qed

lemma class_lines:
  assumes "token_fragments (Block ''class'' body)"
    and "transpile_node (Block ''class'' body) [] = Inr rn"
  shows "\<exists>name rb. first_value body = Inr name \<and> transpile_body (tl body) [] = Inr rb
           \<and> split_lines rn = (''public class '' @ name @ '' {'') # split_lines rb @ [''}'']
           \<and> indented_by 0 (''public class '' @ name @ '' {'') \<and> indented_by 0 ''}''"
proof -
  have k: "''class'' \<in> set render_kinds" by (simp add: render_kinds_def)
  from block_lines[OF k assms] obtain name rb where
    "first_value body = Inr name" "transpile_body (tl body) [] = Inr rb"
    "split_lines rn = open_line ''class'' name # split_lines rb @ [close_line ''class'']"
    by blast
  moreover have "indented_by 0 (''public class '' @ name @ '' {'')" "indented_by 0 ''}''"
    by (simp_all add: indented_by_def indent_of_def)
  ultimately show ?thesis by (auto simp: open_line_simps close_line_simps)
qed

lemma inner_block_lines:
  assumes "k \<in> set [''def'', ''if'', ''while'']" and "token_fragments (Block k body)"
    and "transpile_node (Block k body) [] = Inr rn"
  shows "\<exists>name rb. first_value body = Inr name \<and> transpile_body (tl body) [] = Inr rb
           \<and> split_lines rn = open_line k name # split_lines rb @ [''    }'']
           \<and> indented_by 4 (open_line k name) \<and> indented_by 4 ''    }''"
proof -
  from assms(1) have k: "k \<in> set render_kinds" and nc: "k \<noteq> ''class''"
    by (auto simp: render_kinds_def)
  from block_lines[OF k assms(2,3)] obtain name rb where
    "first_value body = Inr name" "transpile_body (tl body) [] = Inr rb"
    "split_lines rn = open_line k name # split_lines rb @ [close_line k]"
    by blast
  moreover have "indented_by 4 (open_line k name)"
    using open_line_indent[OF k nc] by (simp add: indented_by_def)
  moreover have "indented_by 4 ''    }''" by (simp add: indented_by_def indent_of_def)
  ultimately show ?thesis using nc by (auto simp: close_line_simps)
qed

lemma node_lines_clean:
  assumes "token_fragments n" and "no_class n" and "transpile_node n [] = Inr rn"
  shows "\<forall>l \<in> set (split_lines rn). indented_by 4 l"
  using node_chunk_ok[of n False rn] assms by (simp add: chunk_ok_def line_ok_def)

text \<open>
  C6 (amended). For every list of nodes whose fragments are lexer tokens, a Forest or the
  children of a block at any depth, rendering appends a text that does not depend on what
  was rendered before. The lines of this text are the lines of the first node, then those
  of the second, and so on, and the lines of each node are: for a code fragment one line,
  the fragment after exactly four blanks; for a def, if or while node a header line
  indented by exactly four blanks, the lines of its children, and a closing line indented
  by exactly four blanks; for a class node a header line that is not indented, the lines
  of its children, and a closing brace that is not indented. The children are again such
  a list of nodes, so nothing depends on the depth. Hence every line is indented by
  exactly four blanks or is one of the two lines of a class node, and without class nodes
  every line is indented by exactly four blanks.
\<close>

theorem flat_indentation:
  assumes "\<forall>n \<in> set nodes. token_fragments n" and "transpile_body nodes out = Inr out'"
  shows "\<exists>r. out' = out @ r \<and> transpile_body nodes [] = Inr r
           \<and> (out = [] \<longrightarrow> transpile_to_csharp nodes = Inr r)
           \<and> (\<forall>l \<in> set (split_lines r). indented_by 4 l \<or> class_line l)
           \<and> ((\<forall>n \<in> set nodes. no_class n) \<longrightarrow> (\<forall>l \<in> set (split_lines r). indented_by 4 l))
           \<and> (\<forall>pre n post. nodes = pre @ n # post \<longrightarrow>
                (\<exists>rp rn rq. transpile_body pre [] = Inr rp \<and> transpile_node n [] = Inr rn
                   \<and> transpile_body post [] = Inr rq
                   \<and> split_lines r = split_lines rp @ split_lines rn @ split_lines rq
                   \<and> (\<forall>v. n = Code v \<longrightarrow>
                        split_lines rn = [''    '' @ v] \<and> indented_by 4 (''    '' @ v))
                   \<and> (\<forall>body. n = Block ''class'' body \<longrightarrow>
                        (\<exists>name rb. first_value body = Inr name
                           \<and> transpile_body (tl body) [] = Inr rb
                           \<and> split_lines rn
                               = (''public class '' @ name @ '' {'') # split_lines rb @ [''}'']
                           \<and> indented_by 0 (''public class '' @ name @ '' {'')
                           \<and> indented_by 0 ''}''))
                   \<and> (\<forall>k body. n = Block k body \<and> k \<in> set [''def'', ''if'', ''while''] \<longrightarrow>
                        (\<exists>name rb. first_value body = Inr name
                           \<and> transpile_body (tl body) [] = Inr rb
                           \<and> split_lines rn = open_line k name # split_lines rb @ [''    }'']
                           \<and> indented_by 4 (open_line k name)
                           \<and> indented_by 4 ''    }''))))"
proof -
  from assms(2) obtain r where r: "transpile_body nodes [] = Inr r" "out' = out @ r"
    using transpile_body_acc'[of nodes out] by (auto split: sum.splits)
  have a: "\<forall>l \<in> set (split_lines r). indented_by 4 l \<or> class_line l"
    using body_lines[OF assms(1) _ r(1), of True] by (simp add: line_ok_def)
  have b: "(\<forall>n \<in> set nodes. no_class n) \<longrightarrow> (\<forall>l \<in> set (split_lines r). indented_by 4 l)"
    using body_lines[OF assms(1) _ r(1), of False] by (simp add: line_ok_def)
  have c: "\<exists>rp rn rq. transpile_body pre [] = Inr rp \<and> transpile_node n [] = Inr rn
                   \<and> transpile_body post [] = Inr rq
                   \<and> split_lines r = split_lines rp @ split_lines rn @ split_lines rq
                   \<and> (\<forall>v. n = Code v \<longrightarrow>
                        split_lines rn = [''    '' @ v] \<and> indented_by 4 (''    '' @ v))
                   \<and> (\<forall>body. n = Block ''class'' body \<longrightarrow>
                        (\<exists>name rb. first_value body = Inr name
                           \<and> transpile_body (tl body) [] = Inr rb
                           \<and> split_lines rn
                               = (''public class '' @ name @ '' {'') # split_lines rb @ [''}'']
                           \<and> indented_by 0 (''public class '' @ name @ '' {'')
                           \<and> indented_by 0 ''}''))
                   \<and> (\<forall>k body. n = Block k body \<and> k \<in> set [''def'', ''if'', ''while''] \<longrightarrow>
                        (\<exists>name rb. first_value body = Inr name
                           \<and> transpile_body (tl body) [] = Inr rb
                           \<and> split_lines rn = open_line k name # split_lines rb @ [''    }'']
                           \<and> indented_by 4 (open_line k name)
                           \<and> indented_by 4 ''    }''))"
    if split: "nodes = pre @ n # post" for pre n post
  proof -
    from element_lines[OF assms(1) r(1) split] obtain rp rn rq where
      e: "transpile_body pre [] = Inr rp" "transpile_node n [] = Inr rn"
         "transpile_body post [] = Inr rq"
         "split_lines r = split_lines rp @ split_lines rn @ split_lines rq"
      by blast
    have frag: "token_fragments n" using assms(1) split by simp
    have c1: "\<forall>v. n = Code v \<longrightarrow>
                split_lines rn = [''    '' @ v] \<and> indented_by 4 (''    '' @ v)"
      using code_lines frag e(2) by blast
    have c2: "\<forall>body. n = Block ''class'' body \<longrightarrow>
                (\<exists>name rb. first_value body = Inr name
                   \<and> transpile_body (tl body) [] = Inr rb
                   \<and> split_lines rn
                       = (''public class '' @ name @ '' {'') # split_lines rb @ [''}'']
                   \<and> indented_by 0 (''public class '' @ name @ '' {'')
                   \<and> indented_by 0 ''}'')"
      using class_lines frag e(2) by blast
    have c3: "\<forall>k body. n = Block k body \<and> k \<in> set [''def'', ''if'', ''while''] \<longrightarrow>
                (\<exists>name rb. first_value body = Inr name
                   \<and> transpile_body (tl body) [] = Inr rb
                   \<and> split_lines rn = open_line k name # split_lines rb @ [''    }'']
                   \<and> indented_by 4 (open_line k name)
                   \<and> indented_by 4 ''    }'')"
      using inner_block_lines frag e(2) by blast
    from e c1 c2 c3 show ?thesis by blast
  qed
  have t: "out = [] \<longrightarrow> transpile_to_csharp nodes = Inr r"
    using r(1) by (simp add: transpile_to_csharp_def)
  from r a b c t show ?thesis by blast
qed

text \<open>Witness of C6: a def node with a class node and a code fragment inside.\<close>

theorem flat_indentation_witness:
  "token_fragments (Block ''def'' [Code ''f'', Block ''class'' [Code ''B''], Code ''y''])
   \<and> transpile_to_csharp [Block ''def'' [Code ''f'', Block ''class'' [Code ''B''], Code ''y'']]
       = Inr ''    public void f() {\<newline>public class B {\<newline>}\<newline>    y\<newline>    }\<newline>''
   \<and> split_lines ''    public void f() {\<newline>public class B {\<newline>}\<newline>    y\<newline>    }\<newline>''
       = [''    public void f() {'', ''public class B {'', ''}'', ''    y'', ''    }'']
   \<and> indented_by 4 ''    public void f() {'' \<and> indented_by 0 ''public class B {''
   \<and> indented_by 0 ''}'' \<and> indented_by 4 ''    y'' \<and> indented_by 4 ''    }''"
proof -
  have h1: "\<forall>n \<in> set [Block ''def'' [Code ''f'', Block ''class'' [Code ''B''], Code ''y'']].
              token_fragments n"
    by (simp add: is_space_def)
  have h2: "transpile_body [Block ''def'' [Code ''f'', Block ''class'' [Code ''B''], Code ''y'']] []
       = Inr ''    public void f() {\<newline>public class B {\<newline>}\<newline>    y\<newline>    }\<newline>''"
    by (simp add: first_value_def)
  have i: "indented_by 4 ''    public void f() {''" "indented_by 0 ''public class B {''"
    "indented_by 0 ''}''" "indented_by 4 ''    y''" "indented_by 4 ''    }''"
    by (simp_all add: indented_by_def indent_of_def)
  from flat_indentation[OF h1 h2]
  have "transpile_to_csharp [Block ''def'' [Code ''f'', Block ''class'' [Code ''B''], Code ''y'']]
       = Inr ''    public void f() {\<newline>public class B {\<newline>}\<newline>    y\<newline>    }\<newline>''"
    by auto
  with h1 i show ?thesis by simp
qed

text \<open>
  Counterexample to C6 as stated: the class nested in the class of
  \<^verbatim>\<open>class A class B end end\<close> is not at top level, and its two lines are not indented.
\<close>

theorem flat_indentation_counterexample:
  "parse_tokens (tokenize_ruby_code ''class A class B end end'')
     = Inr [Block ''class'' [Code ''A'', Block ''class'' [Code ''B'']]]
   \<and> transpile_to_csharp [Block ''class'' [Code ''A'', Block ''class'' [Code ''B'']]]
     = Inr ''public class A {\<newline>public class B {\<newline>}\<newline>}\<newline>''
   \<and> transpile_body (tl [Code ''A'', Block ''class'' [Code ''B'']]) []
     = Inr ''public class B {\<newline>}\<newline>''
   \<and> split_lines ''public class B {\<newline>}\<newline>'' = [''public class B {'', ''}'']
   \<and> \<not> indented_by 4 ''public class B {''
   \<and> \<not> indented_by 4 ''}''"
  by (simp add: transpile_to_csharp_def is_ident_start_def is_ident_char_def
      is_space_def parse_tokens_def parse_step_def block_keywords_def first_value_def
      indented_by_def indent_of_def)

text \<open>
  C7 (amended). Rendering a def node whose fragments are lexer tokens yields the header
  line, the lines of the body and the closing line. The body lines are the lines of the
  body's nodes in order. The lines of a body node without a class inside are each
  indented by exactly four blanks, whatever the depth of the node that produced them, not
  by eight. A class node in the body is rendered as a header line that is not indented,
  the lines of its children, and a closing brace that is not indented.
\<close>

theorem def_body_indentation:
  assumes "token_fragments (Block ''def'' body)"
    and "transpile_node (Block ''def'' body) out = Inr out'"
  shows "\<exists>name r. first_value body = Inr name \<and> transpile_body (tl body) [] = Inr r
           \<and> out' = out @ ''    public void '' @ name @ ''() {\<newline>'' @ r @ ''    }\<newline>''
           \<and> split_lines (''    public void '' @ name @ ''() {\<newline>'' @ r @ ''    }\<newline>'')
               = (''    public void '' @ name @ ''() {'') # split_lines r @ [''    }'']
           \<and> (\<forall>l \<in> set (split_lines r). indented_by 4 l \<or> class_line l)
           \<and> ((\<forall>n \<in> set (tl body). no_class n) \<longrightarrow> (\<forall>l \<in> set (split_lines r). indented_by 4 l))
           \<and> (\<forall>pre n post. tl body = pre @ n # post \<longrightarrow>
                (\<exists>rp rn rq. transpile_body pre [] = Inr rp \<and> transpile_node n [] = Inr rn
                   \<and> transpile_body post [] = Inr rq
                   \<and> split_lines r = split_lines rp @ split_lines rn @ split_lines rq
                   \<and> (no_class n \<longrightarrow> (\<forall>l \<in> set (split_lines rn). indented_by 4 l))
                   \<and> (\<forall>cbody. n = Block ''class'' cbody \<longrightarrow>
                        (\<exists>cname rb. first_value cbody = Inr cname
                           \<and> transpile_body (tl cbody) [] = Inr rb
                           \<and> split_lines rn
                               = (''public class '' @ cname @ '' {'') # split_lines rb @ [''}'']
                           \<and> indented_by 0 (''public class '' @ cname @ '' {'')
                           \<and> indented_by 0 ''}''))))"
proof -
  have k: "''def'' \<in> set render_kinds" by (simp add: render_kinds_def)
  from block_render_shape[OF k assms(2)] obtain name r where
    s: "first_value body = Inr name" "transpile_body (tl body) [] = Inr r"
       "out' = out @ open_line ''def'' name @ ''\<newline>'' @ r @ close_line ''def'' @ ''\<newline>''"
    by blast
  have frag: "\<forall>n \<in> set (tl body). token_fragments n"
    using assms(1) by (auto dest: in_set_tl)
  have a: "\<forall>l \<in> set (split_lines r). indented_by 4 l \<or> class_line l"
    using body_lines[OF frag _ s(2), of True] by (simp add: line_ok_def)
  have b: "(\<forall>n \<in> set (tl body). no_class n) \<longrightarrow> (\<forall>l \<in> set (split_lines r). indented_by 4 l)"
    using body_lines[OF frag _ s(2), of False] by (simp add: line_ok_def)
  have o: "out' = out @ ''    public void '' @ name @ ''() {\<newline>'' @ r @ ''    }\<newline>''"
    using s(3) by (simp add: open_line_simps close_line_simps)
  have run: "transpile_node (Block ''def'' body) []
               = Inr (''    public void '' @ name @ ''() {\<newline>'' @ r @ ''    }\<newline>'')"
    using assms(2) o transpile_node_acc[of "Block ''def'' body" out]
    by (auto split: sum.splits)
  from block_lines[OF k assms(1) run] s(1,2)
  have l: "split_lines (''    public void '' @ name @ ''() {\<newline>'' @ r @ ''    }\<newline>'')
               = (''    public void '' @ name @ ''() {'') # split_lines r @ [''    }'']"
    by (auto simp: open_line_simps close_line_simps)
  have c: "\<exists>rp rn rq. transpile_body pre [] = Inr rp \<and> transpile_node n [] = Inr rn
                   \<and> transpile_body post [] = Inr rq
                   \<and> split_lines r = split_lines rp @ split_lines rn @ split_lines rq
                   \<and> (no_class n \<longrightarrow> (\<forall>l \<in> set (split_lines rn). indented_by 4 l))
                   \<and> (\<forall>cbody. n = Block ''class'' cbody \<longrightarrow>
                        (\<exists>cname rb. first_value cbody = Inr cname
                           \<and> transpile_body (tl cbody) [] = Inr rb
                           \<and> split_lines rn
                               = (''public class '' @ cname @ '' {'') # split_lines rb @ [''}'']
                           \<and> indented_by 0 (''public class '' @ cname @ '' {'')
                           \<and> indented_by 0 ''}''))"
    if split: "tl body = pre @ n # post" for pre n post
  proof -
    from element_lines[OF frag s(2) split] obtain rp rn rq where
      e: "transpile_body pre [] = Inr rp" "transpile_node n [] = Inr rn"
         "transpile_body post [] = Inr rq"
         "split_lines r = split_lines rp @ split_lines rn @ split_lines rq"
      by blast
    have fn: "token_fragments n" using frag split by simp
    have c1: "no_class n \<longrightarrow> (\<forall>l \<in> set (split_lines rn). indented_by 4 l)"
      using node_lines_clean[OF fn _ e(2)] by blast
    have c2: "\<forall>cbody. n = Block ''class'' cbody \<longrightarrow>
                (\<exists>cname rb. first_value cbody = Inr cname
                   \<and> transpile_body (tl cbody) [] = Inr rb
                   \<and> split_lines rn
                       = (''public class '' @ cname @ '' {'') # split_lines rb @ [''}'']
                   \<and> indented_by 0 (''public class '' @ cname @ '' {'')
                   \<and> indented_by 0 ''}'')"
      using class_lines fn e(2) by blast
    from e c1 c2 show ?thesis by blast
  qed
  from s(1,2) o l a b c show ?thesis by blast
qed

text \<open>Witness of C7: a def node with a class node and a code fragment in its body.\<close>

theorem def_body_indentation_witness:
  "token_fragments (Block ''def'' [Code ''f'', Block ''class'' [Code ''B''], Code ''y''])
   \<and> transpile_node (Block ''def'' [Code ''f'', Block ''class'' [Code ''B''], Code ''y'']) ''''
       = Inr ''    public void f() {\<newline>public class B {\<newline>}\<newline>    y\<newline>    }\<newline>''
   \<and> transpile_body (tl [Code ''f'', Block ''class'' [Code ''B''], Code ''y'']) []
       = Inr ''public class B {\<newline>}\<newline>    y\<newline>''
   \<and> split_lines ''public class B {\<newline>}\<newline>    y\<newline>''
       = [''public class B {'', ''}'', ''    y'']
   \<and> indented_by 0 ''public class B {'' \<and> indented_by 0 ''}'' \<and> indented_by 4 ''    y''"
proof -
  have h1: "token_fragments (Block ''def'' [Code ''f'', Block ''class'' [Code ''B''], Code ''y''])"
    by (simp add: is_space_def)
  have h2: "transpile_node (Block ''def'' [Code ''f'', Block ''class'' [Code ''B''], Code ''y'']) ''''
       = Inr ''    public void f() {\<newline>public class B {\<newline>}\<newline>    y\<newline>    }\<newline>''"
    by (simp add: first_value_def)
  have i: "indented_by 0 ''public class B {''" "indented_by 0 ''}''" "indented_by 4 ''    y''"
    by (simp_all add: indented_by_def indent_of_def)
  from def_body_indentation[OF h1 h2]
  have "transpile_body (tl [Code ''f'', Block ''class'' [Code ''B''], Code ''y'']) []
       = Inr ''public class B {\<newline>}\<newline>    y\<newline>''"
    by (auto simp: first_value_def)
  with h1 h2 i show ?thesis by simp
qed

text \<open>Counterexample to C7 as stated: the body line of the method \<open>hello\<close> starts with
  four blanks, not eight.\<close>

theorem def_body_indentation_counterexample:
  "transpile_node (Block ''def'' [Code ''hello'', Code ''puts'']) ''''
       = Inr ''    public void hello() {\<newline>    puts\<newline>    }\<newline>''
   \<and> transpile_body (tl [Code ''hello'', Code ''puts'']) [] = Inr ''    puts\<newline>''
   \<and> split_lines ''    puts\<newline>'' = [''    puts'']
   \<and> \<not> indented_by 8 ''    puts''
   \<and> indented_by 4 ''    puts''"
  by (simp add: first_value_def indented_by_def indent_of_def)

lemma body_children_succeed:
  "transpile_body ns out = Inr r \<Longrightarrow> n \<in> set ns \<Longrightarrow> \<exists>acc acc'. transpile_node n acc = Inr acc'"
  by (induction ns arbitrary: out) (auto split: sum.splits)

lemma success_visited_nonempty:
  "transpile_node n out = Inr out' \<Longrightarrow> visited_bodies_nonempty n"
proof (induction n arbitrary: out out')
  case (Code v)
  show ?case by simp
next
  case (Block k body)
  show ?case
  proof (cases "k \<in> set render_kinds")
    case True
    from block_render_shape[OF True Block.prems] obtain v r where
      s: "first_value body = Inr v" "transpile_body (tl body) [] = Inr r" by blast
    from first_value_Inr[OF s(1)] obtain rest where body: "body = Code v # rest" by blast
    have "visited_bodies_nonempty n" if "n \<in> set rest" for n
    proof -
      from s(2) body that obtain acc acc' where "transpile_node n acc = Inr acc'"
        using body_children_succeed[of rest "[]" r n] by auto
      moreover have "n \<in> set body" using that body by simp
      ultimately show ?thesis using Block.IH by blast
    qed
    with body show ?thesis by simp
  next
    case False
    then show ?thesis by (cases body) simp_all
  qed
qed

text \<open>
  C10 (amended). Rendering a class, def, if or while node with an empty body fails with
  \<^verbatim>\<open>IndexError\<close>. When the renderer succeeds on a Forest, every class, def, if and while
  node that it visits has a non-empty body. The input \<^verbatim>\<open>class end\<close> parses to a class
  node with an empty body, and the pipeline fails on it.
\<close>

theorem empty_body_raises:
  "transpile_node (Block ''class'' []) out = Inl IndexError
   \<and> transpile_node (Block ''def'' []) out = Inl IndexError
   \<and> transpile_node (Block ''if'' []) out = Inl IndexError
   \<and> transpile_node (Block ''while'' []) out = Inl IndexError
   \<and> (transpile_to_csharp forest = Inr res \<longrightarrow> (\<forall>n \<in> set forest. visited_bodies_nonempty n))
   \<and> parse_tokens (tokenize_ruby_code ''class end'') = Inr [Block ''class'' []]
   \<and> transpile_ruby ''class end'' = Inl IndexError"
proof -
  have "\<forall>n \<in> set forest. visited_bodies_nonempty n" if "transpile_to_csharp forest = Inr res"
    using that body_children_succeed[of forest "[]" res] success_visited_nonempty
    unfolding transpile_to_csharp_def by blast
  moreover have "parse_tokens (tokenize_ruby_code ''class end'') = Inr [Block ''class'' []]"
    by (simp add: is_ident_start_def is_ident_char_def is_space_def parse_tokens_def
        parse_step_def block_keywords_def)
  moreover from this have "transpile_ruby ''class end'' = Inl IndexError"
    by (simp add: transpile_ruby_def transpile_to_csharp_def first_value_def)
  ultimately show ?thesis by (simp add: first_value_def)
qed

text \<open>Witness of C10: a class node with a name and one statement.\<close>

theorem empty_body_raises_witness:
  "transpile_to_csharp [Block ''class'' [Code ''A'', Code ''x'']]
     = Inr ''public class A {\<newline>    x\<newline>}\<newline>''
   \<and> visited_bodies_nonempty (Block ''class'' [Code ''A'', Code ''x''])"
proof -
  have h: "transpile_to_csharp [Block ''class'' [Code ''A'', Code ''x'']]
     = Inr ''public class A {\<newline>    x\<newline>}\<newline>''"
    by (simp add: transpile_to_csharp_def first_value_def)
  from empty_body_raises[of _ "[Block ''class'' [Code ''A'', Code ''x'']]"
      "''public class A {\<newline>    x\<newline>}\<newline>''"] h
  show ?thesis by simp
qed

text \<open>
  Counterexample to C10 as stated: the Forest of \<^verbatim>\<open>else class end end\<close> holds a class
  node with an empty body, and the renderer succeeds on it, because it never visits the
  body of the else node.
\<close>

theorem empty_body_raises_counterexample:
  "parse_tokens (tokenize_ruby_code ''else class end end'')
     = Inr [Block ''else'' [Block ''class'' []]]
   \<and> transpile_to_csharp [Block ''else'' [Block ''class'' []]] = Inr ''''
   \<and> transpile_ruby ''else class end end'' = Inr ''''
   \<and> \<not> all_bodies_nonempty (Block ''else'' [Block ''class'' []])"
  by (simp add: transpile_ruby_def transpile_to_csharp_def is_ident_start_def is_ident_char_def
      is_space_def parse_tokens_def parse_step_def block_keywords_def render_kinds_def)

end
